theory Spec2Isabelle
  imports Main "HOL-Library.Word"
begin

unbundle bit_operations_syntax

section \<open>The 256-bit register of \<^verbatim>\<open>simdlib_emulated.h\<close>\<close>

text \<open>
  \<^verbatim>\<open>struct simd256bit\<close> holds one anonymous union of \<^verbatim>\<open>uint8_t u8[32]\<close>,
  \<^verbatim>\<open>uint16_t u16[16]\<close>, \<^verbatim>\<open>uint32_t u32[8]\<close> and \<^verbatim>\<open>float f32[8]\<close>. The model keeps
  the 32 bytes of storage as the one representation; the wider members are read and
  written through the bytes they overlay, least significant byte first (the byte order
  of the hosts the library is built for). A register is well formed when it has
  exactly 32 bytes. The three derived structs add no data member, and their
  constructors from \<^verbatim>\<open>simd256bit\<close> copy the union, so all four share the type.
\<close>

type_synonym uint8_t = "8 word"
type_synonym uint16_t = "16 word"
type_synonym uint32_t = "32 word"

text \<open>A \<^verbatim>\<open>float\<close> lane is carried as its 32-bit object representation.\<close>

type_synonym float32 = "32 word"

type_synonym simd256bit = "uint8_t list"

definition u8 :: "simd256bit \<Rightarrow> nat \<Rightarrow> uint8_t" where
  "u8 r j = r ! j"

definition u8_set :: "simd256bit \<Rightarrow> nat \<Rightarrow> uint8_t \<Rightarrow> simd256bit" where
  "u8_set r j v = r[j := v]"

definition u16 :: "simd256bit \<Rightarrow> nat \<Rightarrow> uint16_t" where
  "u16 r j = word_cat (r ! (2 * j + 1)) (r ! (2 * j))"

definition u16_set :: "simd256bit \<Rightarrow> nat \<Rightarrow> uint16_t \<Rightarrow> simd256bit" where
  "u16_set r j v = r[2 * j := ucast v, 2 * j + 1 := ucast (drop_bit 8 v)]"

definition f32 :: "simd256bit \<Rightarrow> nat \<Rightarrow> float32" where
  "f32 r j = word_cat (word_cat (r ! (4 * j + 3)) (r ! (4 * j + 2)) :: 16 word)
                      (word_cat (r ! (4 * j + 1)) (r ! (4 * j)) :: 16 word)"

definition f32_set :: "simd256bit \<Rightarrow> nat \<Rightarrow> float32 \<Rightarrow> simd256bit" where
  "f32_set r j v =
     r[4 * j := ucast v, 4 * j + 1 := ucast (drop_bit 8 v),
       4 * j + 2 := ucast (drop_bit 16 v), 4 * j + 3 := ucast (drop_bit 24 v)]"

text \<open>
  The default constructors leave the union as it is found. Every function below that
  starts from such a register writes all of its lanes before returning it; the lemmas
  about the loops are stated for an arbitrary 32-byte starting value, so the choice
  made here does not show in any result.
\<close>

definition indeterminate :: simd256bit where
  "indeterminate = replicate 32 0"

subsection \<open>Counted loops\<close>

text \<open>\<^verbatim>\<open>for (int j = j0; j < n; j++) body\<close>, threading the variables the body assigns.\<close>

function for_loop :: "nat \<Rightarrow> nat \<Rightarrow> (nat \<Rightarrow> 's \<Rightarrow> 's) \<Rightarrow> 's \<Rightarrow> 's" where
  "for_loop j n body s = (if j < n then for_loop (j + 1) n body (body j s) else s)"
  by pat_completeness auto
termination
  by (relation "measure (\<lambda>(j, n, body, s). n - j)") auto

declare for_loop.simps [simp del]

section \<open>\<^verbatim>\<open>simd256bit::bin\<close>\<close>

text \<open>
  \<^verbatim>\<open>bytes\<close> is the storage read as plain \<^verbatim>\<open>char\<close>, whose signedness the compiler
  fixes; it is a parameter here. The element is promoted to \<^verbatim>\<open>int\<close>, shifted right
  (arithmetically when negative), masked with 1 and added to \<^verbatim>\<open>'0'\<close>.
\<close>

definition char_to_int :: "bool \<Rightarrow> uint8_t \<Rightarrow> int" where
  "char_to_int char_is_signed b = (if char_is_signed then sint b else uint b)"

definition bin_bits :: "bool \<Rightarrow> simd256bit \<Rightarrow> char list \<Rightarrow> char list" where
  "bin_bits char_is_signed this bits0 =
     (for_loop 0 256
        (\<lambda>i bits. bits[i := char_of (of_char CHR ''0''
                      + (drop_bit (i mod 8) (char_to_int char_is_signed (u8 this (i div 8))) AND 1 :: int))])
        bits0)
     [256 := CHR 0x00]"

text \<open>
  \<^verbatim>\<open>std::string bin()\<close> fills a local \<^verbatim>\<open>char bits[257]\<close> and builds the string from
  it as a C string: the characters before the first NUL.
\<close>

definition bin :: "bool \<Rightarrow> simd256bit \<Rightarrow> string" where
  "bin char_is_signed this =
     takeWhile (\<lambda>c. c \<noteq> CHR 0x00) (bin_bits char_is_signed this (replicate 257 (CHR 0x00)))"

section \<open>\<^verbatim>\<open>simd16uint16\<close>\<close>

text \<open>
  \<^verbatim>\<open>set1\<close> assigns every lane of the receiver. \<^verbatim>\<open>simd16uint16(int x)\<close> and
  \<^verbatim>\<open>simd16uint16(uint16_t x)\<close> call it on a fresh object (the \<^verbatim>\<open>int\<close> is converted
  to \<^verbatim>\<open>uint16_t\<close> at the call). \<^verbatim>\<open>simd16uint16(const uint16_t *x)\<close> copies the 32
  bytes at \<^verbatim>\<open>x\<close>, that is the first 16 elements of the array.
\<close>

definition simd16uint16_set1 :: "simd256bit \<Rightarrow> uint16_t \<Rightarrow> simd256bit" where
  "simd16uint16_set1 this x = for_loop 0 16 (\<lambda>i this. u16_set this i x) this"

definition simd16uint16_of_int :: "int \<Rightarrow> simd256bit" where
  "simd16uint16_of_int x = simd16uint16_set1 indeterminate (word_of_int x)"

definition simd16uint16_of_array :: "uint16_t list \<Rightarrow> simd256bit" where
  "simd16uint16_of_array x = take 32 (concat (map (\<lambda>v. [ucast v, ucast (drop_bit 8 v)]) x))"

definition simd16uint16_binary_func ::
  "simd256bit \<Rightarrow> simd256bit \<Rightarrow> (uint16_t \<Rightarrow> uint16_t \<Rightarrow> uint16_t) \<Rightarrow> simd256bit" where
  "simd16uint16_binary_func a b f =
     for_loop 0 16 (\<lambda>j c. u16_set c j (f (u16 a j) (u16 b j))) indeterminate"

text \<open>
  The lambdas take \<^verbatim>\<open>uint16_t\<close> operands, which \<^verbatim>\<open>+\<close> and \<^verbatim>\<open>-\<close> promote to
  \<^verbatim>\<open>int\<close>; the \<^verbatim>\<open>int\<close> result (it cannot overflow) is converted back to
  \<^verbatim>\<open>uint16_t\<close> by the \<^verbatim>\<open>std::function\<close> wrapper.
\<close>

definition simd16uint16_plus :: "simd256bit \<Rightarrow> simd256bit \<Rightarrow> simd256bit" where
  "simd16uint16_plus this other =
     simd16uint16_binary_func this other (\<lambda>a b. word_of_int (uint a + uint b))"

definition simd16uint16_minus :: "simd256bit \<Rightarrow> simd256bit \<Rightarrow> simd256bit" where
  "simd16uint16_minus this other =
     simd16uint16_binary_func this other (\<lambda>a b. word_of_int (uint a - uint b))"

text \<open>
  \<^verbatim>\<open>gem |= 3 << (j * 2)\<close>: the shift is done on \<^verbatim>\<open>int\<close> (32 bits, two's
  complement) and the result converted to \<^verbatim>\<open>uint32_t\<close> for the \<^verbatim>\<open>|=\<close>, which keeps
  the bit pattern.
\<close>

definition ge_mask :: "simd256bit \<Rightarrow> simd256bit \<Rightarrow> uint32_t" where
  "ge_mask this thresh =
     for_loop 0 16
       (\<lambda>j gem. if uint (u16 this j) \<ge> uint (u16 thresh j)
                 then gem OR push_bit (j * 2) 3 else gem)
       0"

definition le_mask :: "simd256bit \<Rightarrow> simd256bit \<Rightarrow> uint32_t" where
  "le_mask this thresh = ge_mask thresh this"

definition gt_mask :: "simd256bit \<Rightarrow> simd256bit \<Rightarrow> uint32_t" where
  "gt_mask this thresh = NOT (le_mask this thresh)"

definition all_gt :: "simd256bit \<Rightarrow> simd256bit \<Rightarrow> bool" where
  "all_gt this thresh = (le_mask this thresh = 0)"

text \<open>
  The accumulators assign to the receiver in place; \<^verbatim>\<open>incoming\<close> is the callee's own
  copy of the argument. The loop state is the pair of both objects.
\<close>

definition accu_min :: "simd256bit \<Rightarrow> simd256bit \<Rightarrow> simd256bit \<times> simd256bit" where
  "accu_min this incoming =
     for_loop 0 16
       (\<lambda>j (this, incoming).
          if uint (u16 incoming j) < uint (u16 this j)
          then (u16_set this j (u16 incoming j), incoming)
          else (this, incoming))
       (this, incoming)"

definition accu_max :: "simd256bit \<Rightarrow> simd256bit \<Rightarrow> simd256bit \<times> simd256bit" where
  "accu_max this incoming =
     for_loop 0 16
       (\<lambda>j (this, incoming).
          if uint (u16 incoming j) > uint (u16 this j)
          then (u16_set this j (u16 incoming j), incoming)
          else (this, incoming))
       (this, incoming)"

text \<open>
  \<^verbatim>\<open>std::min(a, b)\<close> is \<^verbatim>\<open>(b < a) ? b : a\<close> and \<^verbatim>\<open>std::max(a, b)\<close> is
  \<^verbatim>\<open>(a < b) ? b : a\<close>, both on \<^verbatim>\<open>uint16_t\<close>.
\<close>

definition std_min :: "uint16_t \<Rightarrow> uint16_t \<Rightarrow> uint16_t" where
  "std_min a b = (if b < a then b else a)"

definition std_max :: "uint16_t \<Rightarrow> uint16_t \<Rightarrow> uint16_t" where
  "std_max a b = (if a < b then b else a)"

definition min_simd16uint16 :: "simd256bit \<Rightarrow> simd256bit \<Rightarrow> simd256bit" where
  "min_simd16uint16 av bv = simd16uint16_binary_func av bv (\<lambda>a b. std_min a b)"

definition max_simd16uint16 :: "simd256bit \<Rightarrow> simd256bit \<Rightarrow> simd256bit" where
  "max_simd16uint16 av bv = simd16uint16_binary_func av bv (\<lambda>a b. std_max a b)"

definition combine2x2 :: "simd256bit \<Rightarrow> simd256bit \<Rightarrow> simd256bit" where
  "combine2x2 a b =
     for_loop 0 8
       (\<lambda>j c. u16_set (u16_set c j (word_of_int (uint (u16 a j) + uint (u16 a (j + 8)))))
                 (j + 8) (word_of_int (uint (u16 b j) + uint (u16 b (j + 8)))))
       indeterminate"

definition cmp_ge32 :: "simd256bit \<Rightarrow> simd256bit \<Rightarrow> simd256bit \<Rightarrow> uint32_t" where
  "cmp_ge32 d0 d1 thr =
     for_loop 0 16
       (\<lambda>j gem.
          let gem = (if uint (u16 d0 j) \<ge> uint (u16 thr j) then gem OR push_bit j 1 else gem)
          in if uint (u16 d1 j) \<ge> uint (u16 thr j) then gem OR push_bit (j + 16) 1 else gem)
       0"

definition cmp_le32 :: "simd256bit \<Rightarrow> simd256bit \<Rightarrow> simd256bit \<Rightarrow> uint32_t" where
  "cmp_le32 d0 d1 thr =
     for_loop 0 16
       (\<lambda>j gem.
          let gem = (if uint (u16 d0 j) \<le> uint (u16 thr j) then gem OR push_bit j 1 else gem)
          in if uint (u16 d1 j) \<le> uint (u16 thr j) then gem OR push_bit (j + 16) 1 else gem)
       0"

section \<open>\<^verbatim>\<open>simd32uint8\<close>\<close>

definition simd32uint8_binary_func ::
  "simd256bit \<Rightarrow> simd256bit \<Rightarrow> (uint8_t \<Rightarrow> uint8_t \<Rightarrow> uint8_t) \<Rightarrow> simd256bit" where
  "simd32uint8_binary_func a b f =
     for_loop 0 32 (\<lambda>j c. u8_set c j (f (u8 a j) (u8 b j))) indeterminate"

definition simd32uint8_plus :: "simd256bit \<Rightarrow> simd256bit \<Rightarrow> simd256bit" where
  "simd32uint8_plus this other =
     simd32uint8_binary_func this other (\<lambda>a b. word_of_int (uint a + uint b))"

text \<open>
  \<^verbatim>\<open>idx.u8[j] & 0x80\<close> is tested for being non-zero; \<^verbatim>\<open>i\<close> is a \<^verbatim>\<open>uint8_t\<close>
  used as an array index.
\<close>

definition lookup_2_lanes :: "simd256bit \<Rightarrow> simd256bit \<Rightarrow> simd256bit" where
  "lookup_2_lanes this idx =
     for_loop 0 32
       (\<lambda>j c. if u8 idx j AND 0x80 \<noteq> 0 then u8_set c j 0
               else let i = u8 idx j AND 15
                    in if j < 16 then u8_set c j (u8 this (unat i))
                       else u8_set c j (u8 this (16 + unat i)))
       indeterminate"

text \<open>
  \<^verbatim>\<open>simd16uint16 operator + (simd16uint16 other) const\<close> of \<^verbatim>\<open>simd32uint8\<close>: the
  argument reaches \<^verbatim>\<open>simd32uint8::binary_func\<close> through the constructor
  \<^verbatim>\<open>simd32uint8(simd256bit)\<close> and the result leaves through
  \<^verbatim>\<open>simd16uint16(simd256bit)\<close>; both copy the 32 bytes.
\<close>

definition simd32uint8_of_simd256bit :: "simd256bit \<Rightarrow> simd256bit" where
  "simd32uint8_of_simd256bit x = x"

definition simd16uint16_of_simd256bit :: "simd256bit \<Rightarrow> simd256bit" where
  "simd16uint16_of_simd256bit x = x"

definition simd32uint8_plus_simd16uint16 :: "simd256bit \<Rightarrow> simd256bit \<Rightarrow> simd256bit" where
  "simd32uint8_plus_simd16uint16 this other =
     simd16uint16_of_simd256bit
       (simd32uint8_binary_func this (simd32uint8_of_simd256bit other)
          (\<lambda>a b. word_of_int (uint a + uint b)))"

section \<open>\<^verbatim>\<open>simd8float32\<close>\<close>

definition unpacklo :: "simd256bit \<Rightarrow> simd256bit \<Rightarrow> simd256bit" where
  "unpacklo a b =
     (let c = indeterminate;
          c = f32_set c 0 (f32 a 0);
          c = f32_set c 1 (f32 b 0);
          c = f32_set c 2 (f32 a 1);
          c = f32_set c 3 (f32 b 1);
          c = f32_set c 4 (f32 a 4);
          c = f32_set c 5 (f32 b 4);
          c = f32_set c 6 (f32 a 5);
          c = f32_set c 7 (f32 b 5)
      in c)"

definition unpackhi :: "simd256bit \<Rightarrow> simd256bit \<Rightarrow> simd256bit" where
  "unpackhi a b =
     (let c = indeterminate;
          c = f32_set c 0 (f32 a 2);
          c = f32_set c 1 (f32 b 2);
          c = f32_set c 2 (f32 a 3);
          c = f32_set c 3 (f32 b 3);
          c = f32_set c 4 (f32 a 6);
          c = f32_set c 5 (f32 b 6);
          c = f32_set c 6 (f32 a 7);
          c = f32_set c 7 (f32 b 7)
      in c)"

section \<open>Loop invariants and lane access\<close>

lemma for_loop_rule:
  assumes "P j s"
    and "\<And>k t. j \<le> k \<Longrightarrow> k < n \<Longrightarrow> P k t \<Longrightarrow> P (Suc k) (body k t)"
    and "j \<le> n"
  shows "P n (for_loop j n body s)"
  using assms
proof (induction j n body s rule: for_loop.induct)
  case (1 j n body s)
  show ?case
  proof (cases "j < n")
    case True
    have "P n (for_loop (j + 1) n body (body j s))"
      using True 1 by (intro "1.IH") auto
    then show ?thesis using True by (subst for_loop.simps) simp
  next
    case False
    then show ?thesis using 1 by (subst for_loop.simps) simp
  qed
qed

lemma length_indeterminate: "length indeterminate = 32"
  by (simp add: indeterminate_def)

lemma cat_split16:
  "word_cat (ucast (drop_bit 8 v) :: 8 word) (ucast v :: 8 word) = (v :: 16 word)"
  by (rule bit_word_eqI) (auto simp add: bit_simps)

lemma u16_set_same: "j < 16 \<Longrightarrow> length r = 32 \<Longrightarrow> u16 (u16_set r j v) j = v"
  by (simp add: u16_def u16_set_def cat_split16)

lemma u16_set_other: "k \<noteq> j \<Longrightarrow> u16 (u16_set r j v) k = u16 r k"
  by (simp add: u16_def u16_set_def)

lemma length_u16_set: "length (u16_set r j v) = length r"
  by (simp add: u16_set_def)

lemma u16_binary_loop:
  assumes "length c0 = 32"
  shows "length (for_loop 0 16 (\<lambda>j c. u16_set c j (f (u16 a j) (u16 b j))) c0) = 32
       \<and> (\<forall>k<16. u16 (for_loop 0 16 (\<lambda>j c. u16_set c j (f (u16 a j) (u16 b j))) c0) k
                   = f (u16 a k) (u16 b k))"
proof -
  let ?P = "\<lambda>j c. length c = 32 \<and> (\<forall>k<j. u16 c k = f (u16 a k) (u16 b k))"
  have "?P 16 (for_loop 0 16 (\<lambda>j c. u16_set c j (f (u16 a j) (u16 b j))) c0)"
  proof (rule for_loop_rule [where P = ?P])
    show "?P 0 c0" using assms by simp
  next
    fix k t
    assume k: "k < 16" and inv: "?P k t"
    show "?P (Suc k) (u16_set t k (f (u16 a k) (u16 b k)))"
    proof (intro conjI allI impI)
      show "length (u16_set t k (f (u16 a k) (u16 b k))) = 32"
        using inv by (simp add: length_u16_set)
    next
      fix m assume "m < Suc k"
      then consider "m = k" | "m < k" by linarith
      then show "u16 (u16_set t k (f (u16 a k) (u16 b k))) m = f (u16 a m) (u16 b m)"
      proof cases
        case 1
        then show ?thesis using k inv by (simp add: u16_set_same)
      next
        case 2
        then show ?thesis using inv by (simp add: u16_set_other)
      qed
    qed
  qed simp
  then show ?thesis by simp
qed

lemma simd16uint16_binary_func_lane:
  "k < 16 \<Longrightarrow> u16 (simd16uint16_binary_func a b f) k = f (u16 a k) (u16 b k)"
  using u16_binary_loop [OF length_indeterminate, of f a b]
  by (simp add: simd16uint16_binary_func_def)

lemma length_simd16uint16_binary_func: "length (simd16uint16_binary_func a b f) = 32"
  using u16_binary_loop [OF length_indeterminate, of f a b]
  by (simp add: simd16uint16_binary_func_def)

section \<open>Properties\<close>

subsection \<open>Elementwise addition and subtraction\<close>

text \<open>
  C5. For every pair of 16-lane uint16 vectors \<open>a\<close> and \<open>b\<close>, \<open>(a + b) - b\<close> equals
  \<open>a\<close> lane for lane, where \<open>+\<close> and \<open>-\<close> are the elementwise operators and wrap
  modulo \<open>2 ^ 16\<close>.
\<close>

theorem simd16uint16_add_sub_cancel:
  "j < 16 \<Longrightarrow>
     u16 (simd16uint16_minus (simd16uint16_plus a b) b) j = u16 a j
   \<and> unat (u16 (simd16uint16_plus a b) j) = (unat (u16 a j) + unat (u16 b j)) mod 2 ^ 16
   \<and> int (unat (u16 (simd16uint16_minus a b) j))
       = (int (unat (u16 a j)) - int (unat (u16 b j))) mod 2 ^ 16"
proof -
  assume j: "j < 16"
  have plus: "u16 (simd16uint16_plus x y) j = u16 x j + u16 y j" for x y
    using j by (simp add: simd16uint16_plus_def simd16uint16_binary_func_lane)
  have minus: "u16 (simd16uint16_minus x y) j = u16 x j - u16 y j" for x y
    using j by (simp add: simd16uint16_minus_def simd16uint16_binary_func_lane)
  have "u16 (simd16uint16_minus (simd16uint16_plus a b) b) j = u16 a j"
    by (simp add: plus minus)
  moreover have "unat (u16 (simd16uint16_plus a b) j)
       = (unat (u16 a j) + unat (u16 b j)) mod 2 ^ 16"
    by (simp add: plus unat_word_ariths)
  moreover have "int (unat (u16 (simd16uint16_minus a b) j))
       = (int (unat (u16 a j)) - int (unat (u16 b j))) mod 2 ^ 16"
    by (simp add: minus uint_word_ariths)
  ultimately show ?thesis by blast
qed

theorem simd16uint16_add_sub_cancel_witness:
  "(3::nat) < 16
   \<and> u16 (simd16uint16_minus
            (simd16uint16_plus (map of_nat [0..<32]) (replicate 32 0xFF))
            (replicate 32 0xFF)) 3
       = u16 (map of_nat [0..<32]) 3"
proof -
  have h: "(3::nat) < 16" by simp
  show ?thesis
    using h simd16uint16_add_sub_cancel [OF h, of "map of_nat [0..<32]" "replicate 32 0xFF"]
    by blast
qed

subsection \<open>Threshold masks\<close>

lemma three_mask: "(3 :: 32 word) = mask 2"
  by (simp add: mask_eq_exp_minus_1)

lemma bit_shifted_3:
  "bit (push_bit m (3 :: 32 word)) n \<longleftrightarrow> (n = m \<or> n = m + 1) \<and> n < 32"
  unfolding three_mask by (auto simp add: bit_simps)

lemma bit_pow2_32: "bit (2 ^ m :: 32 word) n \<longleftrightarrow> n = m \<and> n < 32"
  by (auto simp add: bit_simps)

lemma pair_index: "n < 2 * Suc k \<longleftrightarrow> n < 2 * k \<or> n = k * 2 \<or> n = k * 2 + 1"
  by arith

lemma pair_div: "n = k * 2 \<or> n = k * 2 + 1 \<Longrightarrow> n div 2 = (k::nat)"
  by auto

lemma ge_mask_bits:
  "bit (ge_mask a thresh) n \<longleftrightarrow> n < 32 \<and> u16 thresh (n div 2) \<le> u16 a (n div 2)"
proof -
  define body where "body = (\<lambda>j gem. if uint (u16 a j) \<ge> uint (u16 thresh j)
                 then gem OR push_bit (j * 2) 3 else (gem :: 32 word))"
  define P where "P = (\<lambda>j (gem :: 32 word).
     \<forall>n. bit gem n \<longleftrightarrow> n < 2 * j \<and> u16 thresh (n div 2) \<le> u16 a (n div 2))"
  have "P 16 (for_loop 0 16 body 0)"
  proof (rule for_loop_rule)
    show "P 0 0" by (simp add: P_def)
  next
    fix k t
    assume k: "k < 16" and inv: "P k t"
    show "P (Suc k) (body k t)"
      unfolding P_def
    proof (intro allI)
      fix n
      show "bit (body k t) n \<longleftrightarrow> n < 2 * Suc k \<and> u16 thresh (n div 2) \<le> u16 a (n div 2)"
      proof (cases "uint (u16 thresh k) \<le> uint (u16 a k)")
        case True
        then have le: "u16 thresh k \<le> u16 a k" by (simp add: word_le_def)
        have "bit (t OR push_bit (k * 2) 3) n \<longleftrightarrow>
              (n < 2 * k \<and> u16 thresh (n div 2) \<le> u16 a (n div 2))
              \<or> ((n = k * 2 \<or> n = k * 2 + 1) \<and> n < 32)"
          using inv by (simp add: P_def bit_or_iff bit_shifted_3)
        also have "\<dots> \<longleftrightarrow> n < 2 * Suc k \<and> u16 thresh (n div 2) \<le> u16 a (n div 2)"
        proof -
          have in32: "n < 32" if "n = k * 2 \<or> n = k * 2 + 1" using that k by arith
          have "u16 thresh (n div 2) \<le> u16 a (n div 2)" if "n = k * 2 \<or> n = k * 2 + 1"
            using pair_div [OF that] le by simp
          then show ?thesis unfolding pair_index using in32 by blast
        qed
        finally show ?thesis using True by (simp add: body_def)
      next
        case False
        then have nle: "\<not> u16 thresh k \<le> u16 a k" by (simp add: word_le_def)
        have "\<not> u16 thresh (n div 2) \<le> u16 a (n div 2)" if "n = k * 2 \<or> n = k * 2 + 1"
            using pair_div [OF that] nle by simp
        then have "bit t n \<longleftrightarrow> n < 2 * Suc k \<and> u16 thresh (n div 2) \<le> u16 a (n div 2)"
          using inv unfolding pair_index P_def by blast
        then show ?thesis using False by (simp add: body_def)
      qed
    qed
  qed simp
  then show ?thesis by (simp add: ge_mask_def body_def P_def)
qed

lemma all_ones_32: "bit (0xFFFFFFFF :: 32 word) n \<longleftrightarrow> n < 32"
proof -
  have e: "(0xFFFFFFFF :: 32 word) = mask 32" by (simp add: mask_eq_exp_minus_1)
  show ?thesis unfolding e by (simp add: bit_mask_iff)
qed

text \<open>
  C2. For every pair of 16-lane uint16 vectors \<open>a\<close> and \<open>thresh\<close>, \<open>a.ge_mask(thresh)\<close>
  is the 32-bit value in which, for each lane \<open>j\<close> in 0..15, the bits at positions
  \<open>2j\<close> and \<open>2j+1\<close> are both 1 if \<open>a[j] >= thresh[j]\<close> and both 0 otherwise;
  consequently \<open>a.ge_mask(a) = 0xFFFFFFFF\<close> for every \<open>a\<close>.
\<close>

theorem ge_mask_two_bits_per_lane:
  "(\<forall>j<16. (bit (ge_mask a thresh) (2 * j) \<longleftrightarrow> u16 a j \<ge> u16 thresh j)
          \<and> (bit (ge_mask a thresh) (2 * j + 1) \<longleftrightarrow> u16 a j \<ge> u16 thresh j))
   \<and> ge_mask a a = 0xFFFFFFFF"
proof (intro conjI allI impI)
  fix j :: nat assume "j < 16"
  then show "bit (ge_mask a thresh) (2 * j) \<longleftrightarrow> u16 a j \<ge> u16 thresh j"
    by (simp add: ge_mask_bits)
next
  fix j :: nat assume "j < 16"
  then show "bit (ge_mask a thresh) (2 * j + 1) \<longleftrightarrow> u16 a j \<ge> u16 thresh j"
    by (simp add: ge_mask_bits)
next
  show "ge_mask a a = 0xFFFFFFFF"
  proof (rule bit_word_eqI)
    fix n
    show "bit (ge_mask a a) n \<longleftrightarrow> bit (0xFFFFFFFF :: 32 word) n"
      unfolding ge_mask_bits all_ones_32 by simp
  qed
qed

theorem ge_mask_two_bits_per_lane_witness:
  "(2::nat) < 16 \<and> \<not> u16 (map of_nat [0..<32]) 2 \<ge> u16 (replicate 32 7) 2
   \<and> \<not> bit (ge_mask (map of_nat [0..<32]) (replicate 32 7)) (2 * 2)
   \<and> \<not> bit (ge_mask (map of_nat [0..<32]) (replicate 32 7)) (2 * 2 + 1)"
proof -
  have h: "(2::nat) < 16" by simp
  have v: "\<not> u16 (map of_nat [0..<32]) 2 \<ge> u16 (replicate 32 7) 2" by code_simp
  show ?thesis
    using h v ge_mask_two_bits_per_lane [of "map of_nat [0..<32]" "replicate 32 7"]
    by blast
qed

subsection \<open>Two-vector comparisons\<close>

lemma cmp32_loop:
  fixes p0 p1 :: "nat \<Rightarrow> bool"
  defines "body \<equiv> (\<lambda>j (gem :: 32 word).
          let gem = (if p0 j then gem OR push_bit j 1 else gem)
          in if p1 j then gem OR push_bit (j + 16) 1 else gem)"
  shows "bit (for_loop 0 16 body 0) n \<longleftrightarrow> (n < 16 \<and> p0 n) \<or> (16 \<le> n \<and> n < 32 \<and> p1 (n - 16))"
proof -
  define P where "P = (\<lambda>j (gem :: 32 word).
     \<forall>n. bit gem n \<longleftrightarrow> (n < j \<and> p0 n) \<or> (16 \<le> n \<and> n < 16 + j \<and> p1 (n - 16)))"
  have "P 16 (for_loop 0 16 body 0)"
  proof (rule for_loop_rule)
    show "P 0 0" by (simp add: P_def)
  next
    fix k t
    assume k: "k < 16" and inv: "P k t"
    have step: "bit (body k t) n \<longleftrightarrow> bit t n \<or> (n = k \<and> p0 k) \<or> (n = k + 16 \<and> p1 k)" for n
      using k by (auto simp add: body_def Let_def bit_or_iff bit_pow2_32)
    show "P (Suc k) (body k t)"
      unfolding P_def
    proof (intro allI)
      fix n
      have t: "bit t m \<longleftrightarrow> (m < k \<and> p0 m) \<or> (16 \<le> m \<and> m < 16 + k \<and> p1 (m - 16))" for m
        using inv unfolding P_def by blast
      consider "n = k" | "n = k + 16" | "n \<noteq> k" "n \<noteq> k + 16" by blast
      then show "bit (body k t) n \<longleftrightarrow>
          (n < Suc k \<and> p0 n) \<or> (16 \<le> n \<and> n < 16 + Suc k \<and> p1 (n - 16))"
      proof cases
        case 1
        then show ?thesis using k by (simp add: step t)
      next
        case 2
        then show ?thesis by (simp add: step t)
      next
        case 3
        then have "n < Suc k \<longleftrightarrow> n < k" "n < 16 + Suc k \<longleftrightarrow> n < 16 + k" by arith+
        then show ?thesis using 3 by (simp add: step t)
      qed
    qed
  qed simp
  then show ?thesis by (simp add: P_def)
qed

lemma cmp_ge32_bits:
  "bit (cmp_ge32 d0 d1 thr) n \<longleftrightarrow>
     (n < 16 \<and> u16 thr n \<le> u16 d0 n) \<or> (16 \<le> n \<and> n < 32 \<and> u16 thr (n - 16) \<le> u16 d1 (n - 16))"
  using cmp32_loop [of "\<lambda>j. uint (u16 thr j) \<le> uint (u16 d0 j)"
                       "\<lambda>j. uint (u16 thr j) \<le> uint (u16 d1 j)" n]
  by (simp add: cmp_ge32_def word_le_def)

lemma cmp_le32_bits:
  "bit (cmp_le32 d0 d1 thr) n \<longleftrightarrow>
     (n < 16 \<and> u16 d0 n \<le> u16 thr n) \<or> (16 \<le> n \<and> n < 32 \<and> u16 d1 (n - 16) \<le> u16 thr (n - 16))"
  using cmp32_loop [of "\<lambda>j. uint (u16 d0 j) \<le> uint (u16 thr j)"
                       "\<lambda>j. uint (u16 d1 j) \<le> uint (u16 thr j)" n]
  by (simp add: cmp_le32_def word_le_def)


lemma bits_FFFFFFE0: "bit (0xFFFFFFE0 :: 32 word) n \<longleftrightarrow> 5 \<le> n \<and> n < 32"
proof -
  have e: "(0xFFFFFFE0 :: 32 word) = push_bit 5 (mask 27)"
    by (simp add: mask_eq_exp_minus_1 push_bit_eq_mult)
  show ?thesis unfolding e by (auto simp add: bit_simps)
qed

text \<open>
  C3. For 16-lane uint16 vectors \<open>d0\<close>, \<open>d1\<close> and \<open>thr\<close>, \<open>cmp_ge32(d0, d1, thr)\<close>
  is the 32-bit mask whose bit \<open>j\<close> (\<open>j < 16\<close>) is 1 iff \<open>d0[j] >= thr[j]\<close> and whose
  bit \<open>j+16\<close> is 1 iff \<open>d1[j] >= thr[j]\<close>, one bit per lane; \<open>cmp_le32\<close> is the same
  with \<open><=\<close>. With \<open>d0 = [0..15]\<close>, \<open>d1 = [100..115]\<close> and \<open>thr\<close> all 5, bit \<open>j\<close>
  (\<open>j < 16\<close>) is 1 iff \<open>j >= 5\<close>, and bits 16..31 are all 1.
\<close>

theorem cmp32_one_bit_per_lane:
  "(\<forall>j<16. (bit (cmp_ge32 d0 d1 thr) j \<longleftrightarrow> u16 d0 j \<ge> u16 thr j)
          \<and> (bit (cmp_ge32 d0 d1 thr) (j + 16) \<longleftrightarrow> u16 d1 j \<ge> u16 thr j)
          \<and> (bit (cmp_le32 d0 d1 thr) j \<longleftrightarrow> u16 d0 j \<le> u16 thr j)
          \<and> (bit (cmp_le32 d0 d1 thr) (j + 16) \<longleftrightarrow> u16 d1 j \<le> u16 thr j))
   \<and> (\<forall>j<16. (bit (cmp_ge32 (simd16uint16_of_array (map of_nat [0..<16]))
                              (simd16uint16_of_array (map of_nat [100..<116]))
                              (simd16uint16_of_int 5)) j \<longleftrightarrow> 5 \<le> j)
            \<and> bit (cmp_ge32 (simd16uint16_of_array (map of_nat [0..<16]))
                             (simd16uint16_of_array (map of_nat [100..<116]))
                             (simd16uint16_of_int 5)) (j + 16))"
proof -
  have v: "cmp_ge32 (simd16uint16_of_array (map of_nat [0..<16]))
                    (simd16uint16_of_array (map of_nat [100..<116]))
                    (simd16uint16_of_int 5) = 0xFFFFFFE0"
    by code_simp
  show ?thesis
    unfolding v cmp_ge32_bits cmp_le32_bits bits_FFFFFFE0 by simp
qed

theorem cmp32_one_bit_per_lane_witness:
  "(7::nat) < 16
   \<and> u16 (simd16uint16_of_array (map of_nat [0..<16])) 7 \<ge> u16 (simd16uint16_of_int 5) 7
   \<and> bit (cmp_ge32 (simd16uint16_of_array (map of_nat [0..<16]))
                    (simd16uint16_of_array (map of_nat [100..<116]))
                    (simd16uint16_of_int 5)) 7
   \<and> \<not> u16 (simd16uint16_of_array (map of_nat [0..<16])) 7 \<le> u16 (simd16uint16_of_int 5) 7
   \<and> \<not> bit (cmp_le32 (simd16uint16_of_array (map of_nat [0..<16]))
                    (simd16uint16_of_array (map of_nat [100..<116]))
                    (simd16uint16_of_int 5)) 7"
proof -
  have h: "(7::nat) < 16" by simp
  have v: "u16 (simd16uint16_of_array (map of_nat [0..<16])) 7 \<ge> u16 (simd16uint16_of_int 5) 7"
    by code_simp
  have w: "\<not> u16 (simd16uint16_of_array (map of_nat [0..<16])) 7 \<le> u16 (simd16uint16_of_int 5) 7"
    by code_simp
  show ?thesis
    using h v w
      cmp32_one_bit_per_lane [of "simd16uint16_of_array (map of_nat [0..<16])"
        "simd16uint16_of_array (map of_nat [100..<116])" "simd16uint16_of_int 5"]
    by blast
qed

subsection \<open>Derived masks\<close>

lemma le_mask_zero_iff: "le_mask a b = 0 \<longleftrightarrow> (\<forall>j<16. u16 b j < u16 a j)"
proof
  assume z: "le_mask a b = 0"
  show "\<forall>j<16. u16 b j < u16 a j"
  proof (intro allI impI)
    fix j :: nat assume j: "j < 16"
    have "\<not> bit (ge_mask b a) (2 * j)" using z by (simp add: le_mask_def)
    then show "u16 b j < u16 a j" using j by (simp add: ge_mask_bits not_le)
  qed
next
  assume gt: "\<forall>j<16. u16 b j < u16 a j"
  have "ge_mask b a = 0"
  proof (rule bit_word_eqI)
    fix n assume "n < LENGTH(32)"
    then have "n div 2 < 16" by simp
    then have "\<not> u16 a (n div 2) \<le> u16 b (n div 2)" using gt by (simp add: not_le)
    then show "bit (ge_mask b a) n \<longleftrightarrow> bit (0 :: 32 word) n" by (simp add: ge_mask_bits)
  qed
  then show "le_mask a b = 0" by (simp add: le_mask_def)
qed

text \<open>
  C4. For every pair of 16-lane uint16 vectors \<open>a\<close> and \<open>b\<close>: \<open>a.le_mask(b)\<close> equals
  \<open>b.ge_mask(a)\<close>; \<open>a.gt_mask(b)\<close> is the bitwise complement of \<open>a.le_mask(b)\<close>;
  \<open>a.all_gt(b)\<close> is true iff \<open>a.le_mask(b) = 0\<close>, that is iff \<open>a[j] > b[j]\<close> for
  every lane \<open>j\<close> in 0..15; so \<open>a.all_gt(a)\<close> is false for every \<open>a\<close>.
\<close>

theorem le_gt_mask_all_gt:
  "le_mask a b = ge_mask b a
   \<and> gt_mask a b = NOT (le_mask a b)
   \<and> (all_gt a b \<longleftrightarrow> le_mask a b = 0)
   \<and> (all_gt a b \<longleftrightarrow> (\<forall>j<16. u16 a j > u16 b j))
   \<and> \<not> all_gt a a"
proof -
  have "\<not> all_gt a a"
    unfolding all_gt_def le_mask_zero_iff by (auto intro: exI [of _ 0])
  then show ?thesis
    by (simp add: le_mask_def gt_mask_def all_gt_def le_mask_zero_iff [unfolded le_mask_def])
qed

theorem le_gt_mask_all_gt_witness:
  "all_gt (replicate 32 1) (replicate 32 0)
   \<and> (3::nat) < 16
   \<and> u16 (replicate 32 1) 3 > u16 (replicate 32 0) 3
   \<and> \<not> all_gt (replicate 32 1) (replicate 32 1)"
proof -
  have v: "all_gt (replicate 32 1) (replicate 32 0)" by code_simp
  have h: "(3::nat) < 16" by simp
  show ?thesis
    using v h le_gt_mask_all_gt [of "replicate 32 1" "replicate 32 0"]
      le_gt_mask_all_gt [of "replicate 32 1" "replicate 32 1"]
    by blast
qed

subsection \<open>Pairwise sums of halves\<close>

lemma combine2x2_loop:
  fixes a b :: simd256bit
  assumes "length c0 = 32"
  defines "body \<equiv> (\<lambda>j c. u16_set (u16_set c j (word_of_int (uint (u16 a j) + uint (u16 a (j + 8)))))
                 (j + 8) (word_of_int (uint (u16 b j) + uint (u16 b (j + 8)))))"
  shows "\<forall>k<8. u16 (for_loop 0 8 body c0) k = u16 a k + u16 a (k + 8)
             \<and> u16 (for_loop 0 8 body c0) (k + 8) = u16 b k + u16 b (k + 8)"
proof -
  define P where "P = (\<lambda>j c. length c = 32 \<and>
     (\<forall>k<j. u16 c k = u16 a k + u16 a (k + 8) \<and> u16 c (k + 8) = u16 b k + u16 b (k + 8)))"
  have "P 8 (for_loop 0 8 body c0)"
  proof (rule for_loop_rule)
    show "P 0 c0" using assms by (simp add: P_def)
  next
    fix k t
    assume k: "k < 8" and inv: "P k t"
    have len: "length t = 32" using inv by (simp add: P_def)
    have old: "u16 t m = u16 a m + u16 a (m + 8) \<and> u16 t (m + 8) = u16 b m + u16 b (m + 8)"
      if "m < k" for m using inv that by (simp add: P_def)
    have new_lo: "u16 (body k t) k = u16 a k + u16 a (k + 8)"
      using k len by (simp add: body_def u16_set_other u16_set_same)
    have new_hi: "u16 (body k t) (k + 8) = u16 b k + u16 b (k + 8)"
      using k len by (simp add: body_def u16_set_same length_u16_set)
    have keep: "u16 (body k t) m = u16 t m" if "m \<noteq> k" "m \<noteq> k + 8" for m
      using that by (simp add: body_def u16_set_other)
    show "P (Suc k) (body k t)"
      unfolding P_def
    proof (intro conjI allI impI)
      show "length (body k t) = 32" using len by (simp add: body_def length_u16_set)
    next
      fix m assume "m < Suc k"
      then consider "m = k" | "m < k" by linarith
      then show "u16 (body k t) m = u16 a m + u16 a (m + 8)"
      proof cases
        case 1 then show ?thesis using new_lo by simp
      next
        case 2 then show ?thesis using k old [OF 2] by (simp add: keep)
      qed
    next
      fix m assume "m < Suc k"
      then consider "m = k" | "m < k" by linarith
      then show "u16 (body k t) (m + 8) = u16 b m + u16 b (m + 8)"
      proof cases
        case 1 then show ?thesis using new_hi by simp
      next
        case 2 then show ?thesis using k old [OF 2] by (simp add: keep)
      qed
    qed
  qed simp
  then show ?thesis by (simp add: P_def)
qed

text \<open>
  C6. For every pair of 16-lane uint16 vectors \<open>a\<close> and \<open>b\<close>, \<open>combine2x2(a, b)\<close> is
  the vector whose lane \<open>j\<close> (\<open>0 <= j < 8\<close>) is \<open>a[j] + a[j+8]\<close> and whose lane
  \<open>j+8\<close> is \<open>b[j] + b[j+8]\<close>, the sums taken modulo \<open>2 ^ 16\<close>; with \<open>a\<close> all 1 and
  \<open>b\<close> all 2 the result is eight 2s followed by eight 4s.
\<close>

theorem combine2x2_halves:
  "(\<forall>j<8. u16 (combine2x2 a b) j = u16 a j + u16 a (j + 8)
         \<and> u16 (combine2x2 a b) (j + 8) = u16 b j + u16 b (j + 8)
         \<and> unat (u16 (combine2x2 a b) j) = (unat (u16 a j) + unat (u16 a (j + 8))) mod 2 ^ 16
         \<and> unat (u16 (combine2x2 a b) (j + 8)) = (unat (u16 b j) + unat (u16 b (j + 8))) mod 2 ^ 16)
   \<and> map (u16 (combine2x2 (simd16uint16_of_int 1) (simd16uint16_of_int 2))) [0..<16]
       = replicate 8 2 @ replicate 8 4"
proof -
  have v: "map (u16 (combine2x2 (simd16uint16_of_int 1) (simd16uint16_of_int 2))) [0..<16]
       = replicate 8 2 @ replicate 8 4"
    by code_simp
  have l: "\<forall>k<8. u16 (combine2x2 a b) k = u16 a k + u16 a (k + 8)
             \<and> u16 (combine2x2 a b) (k + 8) = u16 b k + u16 b (k + 8)"
    unfolding combine2x2_def by (rule combine2x2_loop [OF length_indeterminate])
  show ?thesis
    using v l by (simp add: unat_word_ariths)
qed

theorem combine2x2_halves_witness:
  "(2::nat) < 8
   \<and> u16 (combine2x2 (map of_nat [0..<32]) (replicate 32 0xFF)) 2
       = u16 (map of_nat [0..<32]) 2 + u16 (map of_nat [0..<32]) (2 + 8)
   \<and> u16 (combine2x2 (map of_nat [0..<32]) (replicate 32 0xFF)) (2 + 8) = 0xFFFE"
proof -
  have h: "(2::nat) < 8" by simp
  have v: "u16 (replicate 32 0xFF) 2 + u16 (replicate 32 0xFF) (2 + 8) = 0xFFFE" by code_simp
  show ?thesis
    using h v combine2x2_halves [of "map of_nat [0..<32]" "replicate 32 0xFF"]
    by metis
qed

subsection \<open>Accumulators\<close>

lemma ucast_cat_lo: "(ucast (word_cat hi lo :: 16 word) :: 8 word) = (lo :: 8 word)"
  by (rule bit_word_eqI) (auto simp add: bit_simps)

lemma ucast_cat_hi:
  "(ucast (drop_bit 8 (word_cat hi (lo :: 8 word) :: 16 word)) :: 8 word) = (hi :: 8 word)"
  by (rule bit_word_eqI) (auto simp add: bit_simps)

lemma u16_lanes_determine:
  assumes "length r = 32" "length r' = 32" "\<forall>j<16. u16 r j = u16 r' j"
  shows "r = r'"
proof (rule nth_equalityI)
  show "length r = length r'" using assms by simp
next
  fix i assume "i < length r"
  then have i: "i div 2 < 16" using assms by simp
  then have eq: "u16 r (i div 2) = u16 r' (i div 2)" using assms by simp
  have lo: "x ! (2 * (i div 2)) = ucast (u16 x (i div 2))" for x :: simd256bit
    by (simp add: u16_def ucast_cat_lo)
  have hi: "x ! (2 * (i div 2) + 1) = ucast (drop_bit 8 (u16 x (i div 2)))" for x :: simd256bit
    by (simp add: u16_def ucast_cat_hi)
  have "i = 2 * (i div 2) \<or> i = 2 * (i div 2) + 1" by arith
  then consider "i = 2 * (i div 2)" | "i = 2 * (i div 2) + 1" by blast
  then show "r ! i = r' ! i"
  proof cases
    case 1
    then show ?thesis using lo [of r] lo [of r'] eq by metis
  next
    case 2
    then show ?thesis using hi [of r] hi [of r'] eq by metis
  qed
qed

lemma accu_loop:
  fixes a b :: simd256bit and pick :: "uint16_t \<Rightarrow> uint16_t \<Rightarrow> bool"
  assumes "length a = 32"
  defines "body \<equiv> (\<lambda>j (this, incoming).
          if pick (u16 incoming j) (u16 this j)
          then (u16_set this j (u16 incoming j), incoming)
          else (this, incoming))"
  shows "snd (for_loop 0 16 body (a, b)) = b
       \<and> length (fst (for_loop 0 16 body (a, b))) = 32
       \<and> (\<forall>k<16. u16 (fst (for_loop 0 16 body (a, b))) k
                  = (if pick (u16 b k) (u16 a k) then u16 b k else u16 a k))"
proof -
  define P where "P = (\<lambda>j (s :: simd256bit \<times> simd256bit).
     snd s = b \<and> length (fst s) = 32
     \<and> (\<forall>k<j. u16 (fst s) k = (if pick (u16 b k) (u16 a k) then u16 b k else u16 a k))
     \<and> (\<forall>k\<ge>j. u16 (fst s) k = u16 a k))"
  have "P 16 (for_loop 0 16 body (a, b))"
  proof (rule for_loop_rule)
    show "P 0 (a, b)" using assms by (simp add: P_def)
  next
    fix k s
    assume k: "k < 16" and inv: "P k s"
    obtain t inc where s: "s = (t, inc)" by (cases s)
    have inc: "inc = b" and len: "length t = 32"
      and seen: "\<And>m. m < k \<Longrightarrow> u16 t m = (if pick (u16 b m) (u16 a m) then u16 b m else u16 a m)"
      and todo: "\<And>m. k \<le> m \<Longrightarrow> u16 t m = u16 a m"
      using inv by (simp_all add: P_def s)
    show "P (Suc k) (body k s)"
    proof (cases "pick (u16 b k) (u16 a k)")
      case True
      then have b: "body k s = (u16_set t k (u16 b k), b)"
        by (simp add: body_def s inc todo)
      show ?thesis
        unfolding P_def b using k len seen todo True
        by (auto simp add: length_u16_set u16_set_same u16_set_other less_Suc_eq)
    next
      case False
      then have b: "body k s = (t, b)"
        by (simp add: body_def s inc todo)
      show ?thesis
        unfolding P_def b using k len seen todo False
        by (auto simp add: less_Suc_eq)
    qed
  qed simp
  then show ?thesis by (simp add: P_def)
qed

lemma accu_min_lanes:
  assumes "length a = 32"
  shows "snd (accu_min a b) = b \<and> length (fst (accu_min a b)) = 32
       \<and> (\<forall>k<16. u16 (fst (accu_min a b)) k = std_min (u16 a k) (u16 b k))"
  using accu_loop [OF assms, of "\<lambda>x y. uint x < uint y" b]
  by (simp add: accu_min_def std_min_def word_less_def)

lemma accu_max_lanes:
  assumes "length a = 32"
  shows "snd (accu_max a b) = b \<and> length (fst (accu_max a b)) = 32
       \<and> (\<forall>k<16. u16 (fst (accu_max a b)) k = std_max (u16 a k) (u16 b k))"
  using accu_loop [OF assms, of "\<lambda>x y. uint x > uint y" b]
  by (simp add: accu_max_def std_max_def word_less_def)

text \<open>
  C9. The destructive accumulators agree with the pure free functions: for every pair of
  16-lane uint16 vectors \<open>a\<close> and \<open>b\<close>, after \<open>a.accu_min(b)\<close> the receiver equals
  \<open>min(a_pre, b)\<close> lane for lane, where \<open>a_pre\<close> is the receiver before the call, and
  after \<open>a.accu_max(b)\<close> it equals \<open>max(a_pre, b)\<close>; the argument \<open>b\<close> is unchanged
  in both cases. The first component of the result is the receiver after the call, the
  second the argument object.
\<close>

theorem accu_min_max_agree:
  assumes "length a = 32"
  shows "fst (accu_min a b) = min_simd16uint16 a b
       \<and> (\<forall>j<16. u16 (fst (accu_min a b)) j = u16 (min_simd16uint16 a b) j)
       \<and> snd (accu_min a b) = b
       \<and> fst (accu_max a b) = max_simd16uint16 a b
       \<and> (\<forall>j<16. u16 (fst (accu_max a b)) j = u16 (max_simd16uint16 a b) j)
       \<and> snd (accu_max a b) = b"
proof -
  have mn: "\<forall>j<16. u16 (fst (accu_min a b)) j = u16 (min_simd16uint16 a b) j"
    using accu_min_lanes [OF assms, of b]
    by (simp add: min_simd16uint16_def simd16uint16_binary_func_lane)
  have mx: "\<forall>j<16. u16 (fst (accu_max a b)) j = u16 (max_simd16uint16 a b) j"
    using accu_max_lanes [OF assms, of b]
    by (simp add: max_simd16uint16_def simd16uint16_binary_func_lane)
  have "fst (accu_min a b) = min_simd16uint16 a b"
    using mn accu_min_lanes [OF assms, of b]
    by (intro u16_lanes_determine)
       (simp_all add: min_simd16uint16_def length_simd16uint16_binary_func)
  moreover have "fst (accu_max a b) = max_simd16uint16 a b"
    using mx accu_max_lanes [OF assms, of b]
    by (intro u16_lanes_determine)
       (simp_all add: max_simd16uint16_def length_simd16uint16_binary_func)
  ultimately show ?thesis
    using mn mx accu_min_lanes [OF assms, of b] accu_max_lanes [OF assms, of b] by blast
qed

theorem accu_min_max_agree_witness:
  "length (map of_nat [0..<32] :: simd256bit) = 32
   \<and> fst (accu_min (map of_nat [0..<32]) (replicate 32 7))
       = min_simd16uint16 (map of_nat [0..<32]) (replicate 32 7)
   \<and> snd (accu_min (map of_nat [0..<32]) (replicate 32 7)) = replicate 32 7
   \<and> fst (accu_max (map of_nat [0..<32]) (replicate 32 7))
       = max_simd16uint16 (map of_nat [0..<32]) (replicate 32 7)
   \<and> snd (accu_max (map of_nat [0..<32]) (replicate 32 7)) = replicate 32 7"
proof -
  have h: "length (map of_nat [0..<32] :: simd256bit) = 32" by simp
  show ?thesis
    using h accu_min_max_agree [OF h, of "replicate 32 7"] by blast
qed

subsection \<open>Byte vectors\<close>

lemma u8_fill_loop:
  fixes g :: "nat \<Rightarrow> uint8_t"
  assumes "length c0 = 32"
  shows "for_loop 0 32 (\<lambda>j c. u8_set c j (g j)) c0 = map g [0..<32]"
proof -
  define P where "P = (\<lambda>j (c :: simd256bit). length c = 32 \<and> (\<forall>k<j. c ! k = g k))"
  have "P 32 (for_loop 0 32 (\<lambda>j c. u8_set c j (g j)) c0)"
  proof (rule for_loop_rule)
    show "P 0 c0" using assms by (simp add: P_def)
  next
    fix k t
    assume k: "k < 32" and inv: "P k t"
    then show "P (Suc k) (u8_set t k (g k))"
      by (auto simp add: P_def u8_set_def nth_list_update less_Suc_eq)
  qed simp
  then show ?thesis
    by (intro nth_equalityI) (simp_all add: P_def)
qed

lemma simd32uint8_binary_func_eq:
  "simd32uint8_binary_func a b f = map (\<lambda>j. f (u8 a j) (u8 b j)) [0..<32]"
  unfolding simd32uint8_binary_func_def
  by (rule u8_fill_loop [OF length_indeterminate])

text \<open>
  C10. The mixed-width addition of a 32-lane uint8 vector and a 16-lane uint16 vector does
  no widening: for every \<open>simd32uint8 a\<close> and \<open>simd16uint16 b\<close>, \<open>a + b\<close> is the 32-lane
  byte-wise sum, modulo \<open>2 ^ 8\<close> per byte, of the bytes of \<open>a\<close> with the 32 raw bytes
  of \<open>b\<close>; it is the 8-bit elementwise \<open>+\<close> applied to \<open>b\<close> reinterpreted as a
  \<open>simd32uint8\<close>.
\<close>

theorem mixed_width_add_bytewise:
  "(\<forall>j<32. u8 (simd32uint8_plus_simd16uint16 a b) j = u8 a j + u8 b j
          \<and> unat (u8 (simd32uint8_plus_simd16uint16 a b) j) = (unat (u8 a j) + unat (u8 b j)) mod 2 ^ 8)
   \<and> length (simd32uint8_plus_simd16uint16 a b) = 32
   \<and> simd32uint8_plus_simd16uint16 a b = simd32uint8_plus a (simd32uint8_of_simd256bit b)"
proof -
  have eq: "simd32uint8_plus_simd16uint16 a b = map (\<lambda>j. u8 a j + u8 b j) [0..<32]"
    by (simp add: simd32uint8_plus_simd16uint16_def simd16uint16_of_simd256bit_def
        simd32uint8_of_simd256bit_def simd32uint8_binary_func_eq)
  have "\<forall>j<32. u8 (simd32uint8_plus_simd16uint16 a b) j = u8 a j + u8 b j"
    unfolding eq by (simp add: u8_def [of "map _ _"])
  moreover have "length (simd32uint8_plus_simd16uint16 a b) = 32"
    unfolding eq by simp
  moreover have "simd32uint8_plus_simd16uint16 a b = simd32uint8_plus a (simd32uint8_of_simd256bit b)"
    by (simp add: simd32uint8_plus_simd16uint16_def simd32uint8_plus_def
        simd16uint16_of_simd256bit_def)
  ultimately show ?thesis by (simp add: unat_word_ariths)
qed

theorem mixed_width_add_bytewise_witness:
  "(1::nat) < 32
   \<and> u8 (simd32uint8_plus_simd16uint16 (replicate 32 0xFF) (simd16uint16_of_int 0x0102)) 1 = 0
   \<and> u16 (simd32uint8_plus_simd16uint16 (replicate 32 0xFF) (simd16uint16_of_int 0x0102)) 0 = 0x0001"
proof -
  have h: "(1::nat) < 32" by simp
  have v: "u8 (replicate 32 0xFF) 1 + u8 (simd16uint16_of_int 0x0102) 1 = 0" by code_simp
  have w: "u16 (simd32uint8_plus_simd16uint16 (replicate 32 0xFF) (simd16uint16_of_int 0x0102)) 0 = 0x0001"
    by code_simp
  show ?thesis
    using h v w mixed_width_add_bytewise [of "replicate 32 0xFF" "simd16uint16_of_int 0x0102"]
    by metis
qed

subsection \<open>Table lookup\<close>

lemma test_bit7: "(x :: 8 word) AND 0x80 \<noteq> 0 \<longleftrightarrow> bit x 7"
proof -
  have e: "(0x80 :: 8 word) = 2 ^ 7" by simp
  show ?thesis
    unfolding e by (simp only: and_exp_eq_0_iff_not_bit) simp
qed

lemma nibble_bound: "unat ((x :: 8 word) AND 0x0F) < 16"
proof -
  have "x AND 15 \<le> 15" by (rule word_and_le1)
  then have "unat (x AND 15) \<le> unat (15 :: 8 word)" by (simp only: word_le_nat_alt)
  then show ?thesis by simp
qed

lemma lookup_2_lanes_eq:
  "lookup_2_lanes v idx =
     map (\<lambda>j. if bit (u8 idx j) 7 then 0
              else if j < 16 then u8 v (unat (u8 idx j AND 0x0F))
              else u8 v (16 + unat (u8 idx j AND 0x0F))) [0..<32]"
proof -
  have body: "(\<lambda>j c. if u8 idx j AND 0x80 \<noteq> 0 then u8_set c j 0
               else let i = u8 idx j AND 15
                    in if j < 16 then u8_set c j (u8 v (unat i))
                       else u8_set c j (u8 v (16 + unat i)))
      = (\<lambda>j c. u8_set c j (if bit (u8 idx j) 7 then 0
              else if j < 16 then u8 v (unat (u8 idx j AND 0x0F))
              else u8 v (16 + unat (u8 idx j AND 0x0F))))"
    by (intro ext) (simp add: test_bit7 Let_def)
  show ?thesis
    unfolding lookup_2_lanes_def body by (rule u8_fill_loop [OF length_indeterminate])
qed

lemma lookup_2_lanes_byte:
  "j < 32 \<Longrightarrow> u8 (lookup_2_lanes v idx) j =
     (if bit (u8 idx j) 7 then 0
      else if j < 16 then u8 v (unat (u8 idx j AND 0x0F))
      else u8 v (16 + unat (u8 idx j AND 0x0F)))"
  by (simp add: lookup_2_lanes_eq u8_def [of "map _ _"])

text \<open>
  C1. For every 32-lane uint8 vector \<open>v\<close> and every index vector \<open>idx\<close>,
  \<open>lookup_2_lanes\<close> returns the vector whose byte at each position \<open>j\<close> in 0..31 is 0
  if bit 7 of \<open>idx[j]\<close> is set and otherwise, with \<open>i = idx[j] & 0x0F\<close>, is \<open>v[i]\<close>
  when \<open>j < 16\<close> and \<open>v[16 + i]\<close> when \<open>j >= 16\<close>. No output byte in positions 0..15
  depends on source bytes 16..31, and none in 16..31 on source bytes 0..15: two
  tables that agree on a half give results that agree on that half.
\<close>

theorem lookup_2_lanes_lane_local:
  "(\<forall>j<32. u8 (lookup_2_lanes v idx) j =
      (if bit (u8 idx j) 7 then 0
       else if j < 16 then u8 v (unat (u8 idx j AND 0x0F))
       else u8 v (16 + unat (u8 idx j AND 0x0F))))
   \<and> length (lookup_2_lanes v idx) = 32
   \<and> (\<forall>v'. (\<forall>k<16. u8 v' k = u8 v k) \<longrightarrow>
          (\<forall>j<16. u8 (lookup_2_lanes v' idx) j = u8 (lookup_2_lanes v idx) j))
   \<and> (\<forall>v'. (\<forall>k. 16 \<le> k \<and> k < 32 \<longrightarrow> u8 v' k = u8 v k) \<longrightarrow>
          (\<forall>j. 16 \<le> j \<and> j < 32 \<longrightarrow>
             u8 (lookup_2_lanes v' idx) j = u8 (lookup_2_lanes v idx) j))"
proof (intro conjI allI impI)
  fix j :: nat assume "j < 32"
  then show "u8 (lookup_2_lanes v idx) j =
      (if bit (u8 idx j) 7 then 0
       else if j < 16 then u8 v (unat (u8 idx j AND 0x0F))
       else u8 v (16 + unat (u8 idx j AND 0x0F)))"
    by (rule lookup_2_lanes_byte)
next
  show "length (lookup_2_lanes v idx) = 32"
    by (simp add: lookup_2_lanes_eq)
next
  fix v' :: simd256bit and j :: nat
  assume same: "\<forall>k<16. u8 v' k = u8 v k" and j: "j < 16"
  have "u8 v' (unat (u8 idx j AND 0x0F)) = u8 v (unat (u8 idx j AND 0x0F))"
    using same nibble_bound [of "u8 idx j"] by blast
  then show "u8 (lookup_2_lanes v' idx) j = u8 (lookup_2_lanes v idx) j"
    using j by (simp add: lookup_2_lanes_byte)
next
  fix v' :: simd256bit and j :: nat
  assume same: "\<forall>k. 16 \<le> k \<and> k < 32 \<longrightarrow> u8 v' k = u8 v k" and j: "16 \<le> j \<and> j < 32"
  have "16 + unat (u8 idx j AND 0x0F) < 32"
    using nibble_bound [of "u8 idx j"] by simp
  then have "u8 v' (16 + unat (u8 idx j AND 0x0F)) = u8 v (16 + unat (u8 idx j AND 0x0F))"
    using same by simp
  then show "u8 (lookup_2_lanes v' idx) j = u8 (lookup_2_lanes v idx) j"
    using j by (simp add: lookup_2_lanes_byte)
qed

theorem lookup_2_lanes_lane_local_witness:
  "(16::nat) < 32
   \<and> \<not> bit (u8 ([0, 0x80, 2] @ replicate 13 0x1F @ [3, 0xFF, 0x7E] @ replicate 13 5) 16) 7
   \<and> u8 (lookup_2_lanes (map of_nat ([0..<16] @ [100..<116]))
            ([0, 0x80, 2] @ replicate 13 0x1F @ [3, 0xFF, 0x7E] @ replicate 13 5)) 16 = 103"
proof -
  have h: "(16::nat) < 32" by simp
  have n: "\<not> (16::nat) < 16" by simp
  have b: "\<not> bit (u8 ([0, 0x80, 2] @ replicate 13 0x1F @ [3, 0xFF, 0x7E] @ replicate 13 5) 16) 7"
    by code_simp
  have v: "u8 (map of_nat ([0..<16] @ [100..<116]))
             (16 + unat (u8 ([0, 0x80, 2] @ replicate 13 0x1F @ [3, 0xFF, 0x7E] @ replicate 13 5) 16
                          AND 0x0F)) = 103"
    by code_simp
  show ?thesis
    using h n b v
      lookup_2_lanes_lane_local [of "map of_nat ([0..<16] @ [100..<116])"
        "[0, 0x80, 2] @ replicate 13 0x1F @ [3, 0xFF, 0x7E] @ replicate 13 5"]
    by metis
qed

subsection \<open>Float lanes\<close>

lemma cat_split32:
  "word_cat (word_cat (ucast (drop_bit 24 v) :: 8 word) (ucast (drop_bit 16 v) :: 8 word) :: 16 word)
            (word_cat (ucast (drop_bit 8 v) :: 8 word) (ucast v :: 8 word) :: 16 word)
     = (v :: 32 word)"
  by (rule bit_word_eqI) (auto simp add: bit_simps)

lemma f32_set_same: "j < 8 \<Longrightarrow> length r = 32 \<Longrightarrow> f32 (f32_set r j v) j = v"
  by (simp add: f32_def f32_set_def cat_split32)

lemma f32_set_other: "k \<noteq> j \<Longrightarrow> f32 (f32_set r j v) k = f32 r k"
  by (simp add: f32_def f32_set_def)

lemma length_f32_set: "length (f32_set r j v) = length r"
  by (simp add: f32_set_def)

text \<open>
  C7. For every pair of 8-lane float32 vectors \<open>a\<close> and \<open>b\<close>, \<open>unpacklo(a, b)\<close> is
  exactly the lane permutation \<open>{a0,b0,a1,b1, a4,b4,a5,b5}\<close> and \<open>unpackhi(a, b)\<close> is
  exactly \<open>{a2,b2,a3,b3, a6,b6,a7,b7}\<close>; each output lane has the bit pattern of the
  input lane it names. An assignment between \<^verbatim>\<open>float\<close> lanes is taken to copy the
  object representation.
\<close>

theorem unpack_lane_permutation:
  "[f32 (unpacklo a b) 0, f32 (unpacklo a b) 1, f32 (unpacklo a b) 2, f32 (unpacklo a b) 3,
    f32 (unpacklo a b) 4, f32 (unpacklo a b) 5, f32 (unpacklo a b) 6, f32 (unpacklo a b) 7]
     = [f32 a 0, f32 b 0, f32 a 1, f32 b 1, f32 a 4, f32 b 4, f32 a 5, f32 b 5]
   \<and> [f32 (unpackhi a b) 0, f32 (unpackhi a b) 1, f32 (unpackhi a b) 2, f32 (unpackhi a b) 3,
      f32 (unpackhi a b) 4, f32 (unpackhi a b) 5, f32 (unpackhi a b) 6, f32 (unpackhi a b) 7]
     = [f32 a 2, f32 b 2, f32 a 3, f32 b 3, f32 a 6, f32 b 6, f32 a 7, f32 b 7]
   \<and> length (unpacklo a b) = 32 \<and> length (unpackhi a b) = 32"
proof -
  have lo: "f32 (unpacklo a b) 0 = f32 a 0" "f32 (unpacklo a b) 1 = f32 b 0"
    "f32 (unpacklo a b) 2 = f32 a 1" "f32 (unpacklo a b) 3 = f32 b 1"
    "f32 (unpacklo a b) 4 = f32 a 4" "f32 (unpacklo a b) 5 = f32 b 4"
    "f32 (unpacklo a b) 6 = f32 a 5" "f32 (unpacklo a b) 7 = f32 b 5"
    by (simp_all add: unpacklo_def Let_def f32_set_same f32_set_other length_f32_set
        length_indeterminate)
  have hi: "f32 (unpackhi a b) 0 = f32 a 2" "f32 (unpackhi a b) 1 = f32 b 2"
    "f32 (unpackhi a b) 2 = f32 a 3" "f32 (unpackhi a b) 3 = f32 b 3"
    "f32 (unpackhi a b) 4 = f32 a 6" "f32 (unpackhi a b) 5 = f32 b 6"
    "f32 (unpackhi a b) 6 = f32 a 7" "f32 (unpackhi a b) 7 = f32 b 7"
    by (simp_all add: unpackhi_def Let_def f32_set_same f32_set_other length_f32_set
        length_indeterminate)
  have len: "length (unpacklo a b) = 32" "length (unpackhi a b) = 32"
    by (simp_all add: unpacklo_def unpackhi_def Let_def length_f32_set length_indeterminate)
  show ?thesis
    by (simp only: lo hi len)
qed

subsection \<open>Binary dump\<close>

lemma char_of_48: "char_of (48::int) = CHR ''0''" by code_simp
lemma char_of_49: "char_of (49::int) = CHR ''1''" by code_simp

lemma shift_and_one_int: "drop_bit n (k :: int) AND 1 = of_bool (bit k n)"
  by (simp add: and_one_eq bit_iff_odd_drop_bit mod_2_eq_odd)

lemma bit_char_to_int: "n < 8 \<Longrightarrow> bit (char_to_int s b) n \<longleftrightarrow> bit b n"
  by (simp add: char_to_int_def bit_sint_iff bit_uint_iff)

lemma bin_digit:
  "char_of (48
      + (drop_bit (i mod 8) (char_to_int s b) AND 1 :: int))
   = (if bit b (i mod 8) then CHR ''1'' else CHR ''0'')"
  by (simp add: shift_and_one_int bit_char_to_int char_of_48 char_of_49)

lemma bin_bits_loop:
  fixes this :: simd256bit
  assumes "length bits0 = 257"
  defines "digit \<equiv> (\<lambda>i. if bit (u8 this (i div 8)) (i mod 8) then CHR ''1'' else CHR ''0'')"
  shows "bin_bits s this bits0 = map digit [0..<256] @ [CHR 0x00]"
proof -
  define body where "body = (\<lambda>i (bits :: char list). bits[i := digit i])"
  define P where "P = (\<lambda>i (bits :: char list). length bits = 257 \<and> (\<forall>k<i. bits ! k = digit k))"
  have b: "bin_bits s this bits0 = (for_loop 0 256 body bits0)[256 := CHR 0x00]"
    by (simp add: bin_bits_def body_def digit_def bin_digit)
  have "P 256 (for_loop 0 256 body bits0)"
  proof (rule for_loop_rule)
    show "P 0 bits0" using assms by (simp add: P_def)
  next
    fix k t
    assume "k < 256" and "P k t"
    then show "P (Suc k) (body k t)"
      by (auto simp add: P_def body_def nth_list_update less_Suc_eq)
  qed simp
  then have len: "length (for_loop 0 256 body bits0) = 257"
    and digits: "\<And>k. k < 256 \<Longrightarrow> for_loop 0 256 body bits0 ! k = digit k"
    by (simp_all add: P_def)
  show ?thesis
    unfolding b
  proof (rule nth_equalityI)
    show "length ((for_loop 0 256 body bits0)[256 := CHR 0x00])
        = length (map digit [0..<256] @ [CHR 0x00])"
      using len by simp
  next
    fix i assume "i < length ((for_loop 0 256 body bits0)[256 := CHR 0x00])"
    then have "i < 256 \<or> i = 256" using len by auto
    then show "(for_loop 0 256 body bits0)[256 := CHR 0x00] ! i
        = (map digit [0..<256] @ [CHR 0x00]) ! i"
      using len digits by (auto simp add: nth_append nth_list_update)
  qed
qed

lemma bin_eq:
  "bin s this = map (\<lambda>i. if bit (u8 this (i div 8)) (i mod 8) then CHR ''1'' else CHR ''0'') [0..<256]"
proof -
  have "takeWhile (\<lambda>c. c \<noteq> CHR 0x00)
          (map (\<lambda>i. if bit (u8 this (i div 8)) (i mod 8) then CHR ''1'' else CHR ''0'') [0..<256]
           @ [CHR 0x00])
      = map (\<lambda>i. if bit (u8 this (i div 8)) (i mod 8) then CHR ''1'' else CHR ''0'') [0..<256]"
    by (subst takeWhile_append2) auto
  then show ?thesis
    by (simp add: bin_def bin_bits_loop)
qed

text \<open>
  C8. For every register, the binary dump \<open>bin()\<close> is a string of 256 characters
  \<open>'0'\<close>/\<open>'1'\<close> whose character at position \<open>i\<close> (\<open>0 <= i < 256\<close>) is \<open>'1'\<close> iff bit
  \<open>i mod 8\<close> of byte \<open>i div 8\<close> is set, least significant bit first within each byte;
  an all-zero register dumps to 256 \<open>'0'\<close> and an all-\<open>0xFF\<close> register to 256 \<open>'1'\<close>.
  This holds whether plain \<^verbatim>\<open>char\<close> is signed or not.
\<close>

theorem bin_dump:
  "length (bin s r) = 256
   \<and> (\<forall>i<256. bin s r ! i = (if bit (u8 r (i div 8)) (i mod 8) then CHR ''1'' else CHR ''0''))
   \<and> bin s (replicate 32 0) = replicate 256 CHR ''0''
   \<and> bin s (replicate 32 0xFF) = replicate 256 CHR ''1''"
proof (intro conjI allI impI)
  show "length (bin s r) = 256" by (simp add: bin_eq)
next
  fix i :: nat assume "i < 256"
  then show "bin s r ! i = (if bit (u8 r (i div 8)) (i mod 8) then CHR ''1'' else CHR ''0'')"
    by (simp add: bin_eq)
next
  show "bin s (replicate 32 0) = replicate 256 CHR ''0''"
    by (rule nth_equalityI) (simp_all add: bin_eq u8_def)
next
  have ff: "bit (0xFF :: 8 word) n \<longleftrightarrow> n < 8" for n
  proof -
    have e: "(0xFF :: 8 word) = mask 8" by (simp add: mask_eq_exp_minus_1)
    show ?thesis unfolding e by (simp add: bit_mask_iff)
  qed
  have "bin s (replicate 32 0xFF) ! i = replicate 256 CHR ''1'' ! i" if "i < 256" for i
  proof -
    have "i div 8 < 32" using that by simp
    then have "u8 (replicate 32 0xFF) (i div 8) = 0xFF" by (simp add: u8_def)
    moreover have "bit (0xFF :: 8 word) (i mod 8)" unfolding ff by simp
    ultimately have "bit (u8 (replicate 32 0xFF) (i div 8)) (i mod 8)" by (simp only:)
    then show ?thesis using that by (simp add: bin_eq)
  qed
  then show "bin s (replicate 32 0xFF) = replicate 256 CHR ''1''"
    by (intro nth_equalityI) (simp_all add: bin_eq)
qed

theorem bin_dump_witness:
  "(15::nat) < 256
   \<and> bit (u8 ([0x01, 0x80, 0xFF] @ replicate 29 0) (15 div 8)) (15 mod 8)
   \<and> bin True ([0x01, 0x80, 0xFF] @ replicate 29 0) ! 15 = CHR ''1''
   \<and> bin False ([0x01, 0x80, 0xFF] @ replicate 29 0) ! 15 = CHR ''1''
   \<and> length (bin True ([0x01, 0x80, 0xFF] @ replicate 29 0)) = 256"
proof -
  have h: "(15::nat) < 256" by simp
  have b: "bit (u8 ([0x01, 0x80, 0xFF] @ replicate 29 0) (15 div 8)) (15 mod 8)"
    by code_simp
  show ?thesis
    using h b bin_dump [of True "[0x01, 0x80, 0xFF] @ replicate 29 0"]
      bin_dump [of False "[0x01, 0x80, 0xFF] @ replicate 29 0"]
    by metis
qed

end
